theory Spec2Isabelle
  imports Main "HOL-Library.Sublist" "HOL-Library.AList" "HOL-Library.Code_Target_Nat"
begin

section \<open>Python values and list slicing\<close>

text \<open>
  The repository is a Python package: \<^verbatim>\<open>multicall.py\<close> holds the batch controller
  \<^verbatim>\<open>NotSoBrightBatcher\<close>, the error classifier \<^verbatim>\<open>_raise_or_proceed\<close> and the engine
  \<^verbatim>\<open>Multicall\<close>; \<^verbatim>\<open>call.py\<close> holds \<^verbatim>\<open>Call.decode_output\<close>.  Python integers are
  unbounded, so \<^verbatim>\<open>step\<close>, slice bounds and loop counters are \<^typ>\<open>int\<close>; a list length is
  a \<^typ>\<open>nat\<close>.  The specification calls \<^verbatim>\<open>batch_calls\<close> \<^emph>\<open>partition\<close>, \<^verbatim>\<open>rebatch\<close>
  \<^emph>\<open>shrinkAndRepartition\<close>, \<^verbatim>\<open>_raise_or_proceed\<close> \<^emph>\<open>classify\<close> (a normal return is
  \<^emph>\<open>Rebatch\<close>, a re-raise is \<^emph>\<open>Fatal\<close>) and awaiting a \<^verbatim>\<open>Multicall\<close> \<^emph>\<open>run\<close>.
\<close>

text \<open>
  \<^verbatim>\<open>xs[a:b]\<close> for integers \<^verbatim>\<open>a\<close>, \<^verbatim>\<open>b\<close>: a negative bound counts from the end, and
  every bound is then clamped to \<^verbatim>\<open>0 .. len(xs)\<close>.  \<^verbatim>\<open>batch_calls\<close> reaches the negative
  case once \<^verbatim>\<open>step\<close> has become \<^verbatim>\<open>-1\<close>.
\<close>

definition clamp_index :: "nat \<Rightarrow> int \<Rightarrow> nat" where
  "clamp_index n i = (if i < 0 then nat (max 0 (i + int n)) else min n (nat i))"

definition py_slice :: "'a list \<Rightarrow> int \<Rightarrow> int \<Rightarrow> 'a list" where
  "py_slice xs a b =
     (let lo = clamp_index (length xs) a; hi = clamp_index (length xs) b
      in take (hi - lo) (drop lo xs))"

section \<open>The float expression \<^verbatim>\<open>round(len(calls) * 0.99)\<close>\<close>

text \<open>
  \<^verbatim>\<open>len(calls) * 0.99\<close> converts the length to a double, multiplies by the double
  nearest to 0.99 and rounds the exact product to the nearest double; \<^verbatim>\<open>round\<close> then
  returns the nearest integer, ties to even.  Every double that occurs is a natural
  number divided by \<open>2 ^ 53\<close>, so the computation is written on \<^typ>\<open>nat\<close>:
  \<^item> \<open>excess_bits p\<close> is the number of low bits a 53-bit significand cannot hold;
  \<^item> \<open>round_half_even p s\<close> is \<open>p / 2 ^ s\<close> rounded to the nearest integer, ties to even;
  \<^item> \<open>to_double p\<close> is the natural number with a 53-bit significand nearest to \<open>p\<close>
    (IEEE 754 round-to-nearest-even; exponents are unbounded here, a Python list being
    shorter than \<open>2 ^ 63\<close>);
  \<^item> \<open>double_099\<close> is the significand of the literal \<^verbatim>\<open>0.99\<close>
    (\<^verbatim>\<open>0x1.fae147ae147aep-1\<close>), that is \<open>0.99 = double_099 / 2 ^ 53\<close> as a double.
\<close>

fun excess_bits :: "nat \<Rightarrow> nat" where
  "excess_bits p = (if p < 2 ^ 53 then 0 else Suc (excess_bits (p div 2)))"

definition round_half_even :: "nat \<Rightarrow> nat \<Rightarrow> nat" where
  "round_half_even p s =
     (let q = p div 2 ^ s; r = p mod 2 ^ s
      in if 2 * r > 2 ^ s \<or> (2 * r = 2 ^ s \<and> odd q) then q + 1 else q)"

definition to_double :: "nat \<Rightarrow> nat" where
  "to_double p = (let s = excess_bits p in round_half_even p s * 2 ^ s)"

definition double_099 :: nat where
  "double_099 = 8917127262193582"

definition round_099 :: "nat \<Rightarrow> int" where
  "round_099 n = int (round_half_even (to_double (to_double n * double_099)) 53)"

section \<open>NotSoBrightBatcher\<close>

text \<open>
  \<^verbatim>\<open>batch_calls\<close>: the \<^verbatim>\<open>while True\<close> loop, with \<^verbatim>\<open>start\<close> and \<^verbatim>\<open>batches\<close> as loop
  state and \<^verbatim>\<open>done = len(calls) - 1\<close>.  The loop does not end for every \<^verbatim>\<open>step\<close>
  (\<^verbatim>\<open>step = 0\<close> on two calls appends empty slices for ever), so the result is an option
  and \<open>None\<close> is the loop that never returns.
\<close>

partial_function (option) batch_loop ::
  "'a list \<Rightarrow> int \<Rightarrow> int \<Rightarrow> int \<Rightarrow> 'a list list \<Rightarrow> 'a list list option" where
  "batch_loop calls step done start batches =
     (let end = start + step;
          batches' = batches @ [py_slice calls start end]
      in if end \<ge> done then Some batches'
         else batch_loop calls step done end batches')"

declare batch_loop.simps [code]

definition batch_calls :: "'a list \<Rightarrow> int \<Rightarrow> 'a list list option" where
  "batch_calls calls step =
     (let batches = [];
          start = 0;
          done = int (length calls) - 1
      in batch_loop calls step done start batches)"

definition split_calls :: "'a list \<Rightarrow> 'a list \<times> 'a list" where
  "split_calls calls =
     (let center = length calls div 2;
          chunk_1 = take center calls;
          chunk_2 = drop center calls
      in (chunk_1, chunk_2))"

text \<open>
  The only attribute of the batcher is \<^verbatim>\<open>step\<close>, set to 10000 by \<^verbatim>\<open>__init__\<close>.
  The two methods above take everything they use as arguments; the record comes after
  them so that their parameter can keep the name \<^verbatim>\<open>step\<close>.
\<close>

record batcher =
  step :: int

definition batcher_init :: batcher where
  "batcher_init = \<lparr>step = 10000\<rparr>"

text \<open>
  \<^verbatim>\<open>rebatch\<close> reads and writes \<^verbatim>\<open>self.step\<close>: the batcher is passed in and returned.
  The tuple of \<^verbatim>\<open>split_calls\<close> is consumed as a sequence of two batches.
\<close>

definition rebatch :: "'a list \<Rightarrow> batcher \<Rightarrow> ('a list list \<times> batcher) option" where
  "rebatch calls b =
     (if step b \<le> int (length calls div 2) then
        map_option (\<lambda>batches. (batches, b)) (batch_calls calls (step b))
      else
        (let b' = (if step b \<ge> int (length calls) then
                     b\<lparr>step := (if length calls \<ge> 100 then round_099 (length calls)
                                 else int (length calls) - 1)\<rparr>
                   else b);
             (chunk_1, chunk_2) = split_calls calls
         in Some ([chunk_1, chunk_2], b')))"

section \<open>The classifier \<^verbatim>\<open>_raise_or_proceed\<close>\<close>

text \<open>
  An exception is known to this code by its message alone: \<^verbatim>\<open>str(e)\<close>.  A message is
  a string of code points below 256.  On these \<^verbatim>\<open>str.lower\<close> maps \<^verbatim>\<open>A-Z\<close> and the
  capital letters of Latin-1 (192 to 222, without the multiplication sign 215) to the
  code point 32 above and leaves every other character alone.  \<open>contains s t\<close> is
  Python's \<^verbatim>\<open>t in s\<close> on strings.
\<close>

datatype exn = Exception (str: string)

definition lower_char :: "char \<Rightarrow> char" where
  "lower_char c =
     (let n = (of_char c :: nat)
      in if (65 \<le> n \<and> n \<le> 90) \<or> (192 \<le> n \<and> n \<le> 222 \<and> n \<noteq> 215) then char_of (n + 32)
         else c)"

definition lower :: "string \<Rightarrow> string" where
  "lower s = map lower_char s"

fun contains :: "string \<Rightarrow> string \<Rightarrow> bool" where
  "contains [] t = (t = [])"
| "contains (c # s) t = (prefix t (c # s) \<or> contains s t)"

definition rebatch_triggers :: "string list" where
  "rebatch_triggers =
     [''request entity too large'',
      ''payload too large'',
      ''time-out'',
      ''timeout'',
      ''broken pipe'',
      ''connection reset by peer'',
      ''out of gas'',
      ''out of memory'',
      ''server error'']"

text \<open>
  \<^verbatim>\<open>_raise_or_proceed\<close> either re-raises \<^verbatim>\<open>e\<close> (\<open>Inl e\<close>) or returns \<^verbatim>\<open>None\<close>
  (\<open>Inr ()\<close>), which lets the caller re-batch.  The warning it logs is not modelled.
\<close>

definition raise_or_proceed :: "exn \<Rightarrow> nat \<Rightarrow> exn + unit" where
  "raise_or_proceed e ct_calls =
     (let error_str = lower (str e)
      in if list_ex (\<lambda>trigger. contains error_str trigger) rebatch_triggers then
           if contains error_str ''out of gas'' \<and> ct_calls = 1 then Inl e
           else Inr ()
         else Inl e)"

section \<open>\<^verbatim>\<open>Call\<close> and \<^verbatim>\<open>Call.decode_output\<close>\<close>

text \<open>
  Python values that a call can return.  \<open>PSeq\<close> is an ordered sequence (the tuple that
  \<^verbatim>\<open>decode_data\<close> returns, or the list \<^verbatim>\<open>[None] * n\<close>); \<open>PDict\<close> is a \<^verbatim>\<open>dict\<close> with
  string keys in insertion order.
\<close>

datatype pyval =
    PNone
  | PBool bool
  | PInt int
  | PStr string
  | PBytes string
  | PSeq "pyval list"
  | PDict "(string \<times> pyval) list"

type_synonym bytes = string

text \<open>
  \<^verbatim>\<open>signature.py\<close> is not part of the sources at hand: a \<^verbatim>\<open>Signature\<close> is taken as
  its two methods, each of which may raise.
\<close>

record signature =
  encode_data :: "pyval list option \<Rightarrow> exn + bytes"
  decode_data :: "bytes \<Rightarrow> exn + pyval list"

text \<open>
  A handler of \<^verbatim>\<open>returns\<close> is called as \<^verbatim>\<open>handler(value)\<close> when \<^verbatim>\<open>decode_output\<close> was
  entered with \<^verbatim>\<open>success=None\<close> (first argument \<open>None\<close> here) and as
  \<^verbatim>\<open>handler(success, value)\<close> otherwise (first argument \<open>Some success\<close>); it may raise.
\<close>

type_synonym handler = "bool option \<Rightarrow> pyval \<Rightarrow> exn + pyval"

type_synonym returns = "(string \<times> handler option) list"

text \<open>
  The attributes of a \<^verbatim>\<open>Call\<close> that the batched path reads.  \<^verbatim>\<open>block_id\<close>,
  \<^verbatim>\<open>gas_limit\<close>, \<^verbatim>\<open>state_override_code\<close>, \<^verbatim>\<open>w3\<close>, \<^verbatim>\<open>origin\<close> and \<^verbatim>\<open>function\<close> are
  used by the single-call path and by logging only.
\<close>

record call =
  target :: string
  args :: "pyval list option"
  signature :: signature
  returns :: "returns option"

definition data :: "call \<Rightarrow> exn + bytes" where
  "data c = encode_data (signature c) (args c)"

text \<open>Truthiness of \<^verbatim>\<open>returns\<close>: \<^verbatim>\<open>None\<close> and the empty sequence are false.\<close>

fun truthy :: "returns option \<Rightarrow> bool" where
  "truthy None = False"
| "truthy (Some rs) = (rs \<noteq> [])"

text \<open>
  The dict comprehension of \<^verbatim>\<open>decode_output\<close>, over \<^verbatim>\<open>zip(returns, decoded)\<close>: entries
  are inserted in order, a repeated name overwrites the value in place, and the first
  handler that raises ends the comprehension.  \<open>flag\<close> is the first argument given to
  every handler.
\<close>

fun build_dict ::
  "bool option \<Rightarrow> ((string \<times> handler option) \<times> pyval) list \<Rightarrow> (string \<times> pyval) list
     \<Rightarrow> exn + pyval" where
  "build_dict flag [] d = Inr (PDict d)"
| "build_dict flag (((name, handler), v) # rest) d =
     (case handler of
        None \<Rightarrow> build_dict flag rest (AList.update name v d)
      | Some h \<Rightarrow>
          (case h flag v of
             Inl e \<Rightarrow> Inl e
           | Inr v' \<Rightarrow> build_dict flag rest (AList.update name v' d)))"

text \<open>
  \<^verbatim>\<open>decode_output(output, signature, returns, success)\<close>.  The two lambdas close over
  the variable \<^verbatim>\<open>success\<close>, which the \<^verbatim>\<open>except\<close> branch reassigns to \<^verbatim>\<open>False\<close>: a
  handler called with two arguments sees the reassigned value (\<open>success'\<close>).
  \<^verbatim>\<open>decoded[0]\<close> on an empty tuple raises \<^verbatim>\<open>IndexError\<close>.
\<close>

definition decode_output ::
  "bytes \<Rightarrow> signature \<Rightarrow> returns option \<Rightarrow> bool option \<Rightarrow> exn + pyval" where
  "decode_output output sig rets success =
     (let nulls = replicate (if truthy rets then length (the rets) else 1) PNone;
          (success', decoded) =
             (if success = None \<or> success = Some True then
                (case decode_data sig output of
                   Inr d \<Rightarrow> (success, d)
                 | Inl _ \<Rightarrow> (Some False, nulls))
              else (success, nulls))
      in if truthy rets then
           build_dict (if success = None then None else success') (zip (the rets) decoded) []
         else if length decoded > 1 then Inr (PSeq decoded)
         else (case decoded of
                 [] \<Rightarrow> Inl (Exception ''tuple index out of range'')
               | d # _ \<Rightarrow> Inr d))"

section \<open>Multicall\<close>

text \<open>
  \<^verbatim>\<open>get_args\<close> evaluates \<^verbatim>\<open>call.data\<close> for every call in order; the first encoding
  that raises ends it.
\<close>

type_synonym aggregate_args = "bool \<times> (string \<times> bytes) list"

fun encode_calls :: "call list \<Rightarrow> exn + (string \<times> bytes) list" where
  "encode_calls [] = Inr []"
| "encode_calls (c # cs) =
     (case data c of
        Inl e \<Rightarrow> Inl e
      | Inr d \<Rightarrow> (case encode_calls cs of Inl e \<Rightarrow> Inl e | Inr ds \<Rightarrow> Inr ((target c, d) # ds)))"

definition get_args :: "bool \<Rightarrow> call list \<Rightarrow> exn + aggregate_args" where
  "get_args require_success calls =
     (case encode_calls calls of Inl e \<Rightarrow> Inl e | Inr ds \<Rightarrow> Inr (require_success, ds))"

text \<open>
  The node behind \<^verbatim>\<open>self.aggregate.coroutine(args)\<close> is the environment: a function
  from the request and the state \<open>'w\<close> of the world to the awaited outcome and the next
  state of the world.  The outcome is the list of \<^verbatim>\<open>(success, output)\<close> pairs, or the
  exception that the await raises (a transport error, or the \<^verbatim>\<open>TypeError\<close> of
  \<^verbatim>\<open>zip\<close> when the aggregate output could not be decoded).
\<close>

type_synonym 'w aggregate = "aggregate_args \<Rightarrow> 'w \<Rightarrow> (exn + (bool \<times> bytes) list) \<times> 'w"

text \<open>
  The state that a run threads through: the batcher of the \<^verbatim>\<open>Multicall\<close> object, the
  world, and the requests that were awaited so far, oldest first.
\<close>

record 'w multicall =
  batcher :: batcher
  world :: 'w
  dispatched :: "aggregate_args list"

definition multicall_init :: "'w \<Rightarrow> 'w multicall" where
  "multicall_init w = \<lparr>batcher = batcher_init, world = w, dispatched = []\<rparr>"

text \<open>
  The inner \<^verbatim>\<open>try\<close> of \<^verbatim>\<open>fetch_outputs\<close>: one call and its \<^verbatim>\<open>(success, output)\<close>
  pair; an exception of \<^verbatim>\<open>decode_output\<close> becomes \<^verbatim>\<open>None\<close>.
\<close>

definition decode_call :: "call \<times> (bool \<times> bytes) \<Rightarrow> pyval" where
  "decode_call p =
     (case p of (c, (success, output)) \<Rightarrow>
        (case decode_output output (signature c) (returns c) (Some success) of
           Inl _ \<Rightarrow> PNone
         | Inr decoded_result \<Rightarrow> decoded_result))"

text \<open>
  The outer \<^verbatim>\<open>try\<close> of \<^verbatim>\<open>fetch_outputs\<close>, up to its \<^verbatim>\<open>return results\<close>: either the
  results, or the exception handed to \<^verbatim>\<open>_raise_or_proceed\<close>.  \<^verbatim>\<open>zip\<close> stops at the
  shorter of \<^verbatim>\<open>calls\<close> and \<^verbatim>\<open>outputs\<close>.
\<close>

definition try_fetch ::
  "'w aggregate \<Rightarrow> bool \<Rightarrow> call list \<Rightarrow> 'w multicall \<Rightarrow> (exn + pyval list) \<times> 'w multicall" where
  "try_fetch agg require_success calls m =
     (case get_args require_success calls of
        Inl e \<Rightarrow> (Inl e, m)
      | Inr request \<Rightarrow>
          (case agg request (world m) of (outcome, w') \<Rightarrow>
             (let m' = m\<lparr>world := w', dispatched := dispatched m @ [request]\<rparr>
              in case outcome of
                   Inl e \<Rightarrow> (Inl e, m')
                 | Inr outputs \<Rightarrow> (Inr (map decode_call (zip calls outputs)), m'))))"

text \<open>
  \<^verbatim>\<open>fetch_outputs\<close> and the \<^verbatim>\<open>gather\<close> over sub-batches call each other; they are the
  two kinds of job of one recursive function.  \<open>Fetch calls\<close> is
  \<^verbatim>\<open>fetch_outputs(calls)\<close>.  \<open>Gather batches\<close> is
  \<^verbatim>\<open>gather(*[fetch_outputs(b) for b in batches])\<close> followed by the flattening
  comprehension.  The batches of a gather are awaited one after the other, each to its
  end before the next starts: that is the schedule in which the node answers in this
  order, and a request is recorded in \<open>dispatched\<close> when its answer is consumed.  The
  first exception ends the gather.  A retry that never ends (or a \<^verbatim>\<open>batch_calls\<close> that
  never returns) is \<open>None\<close>.
\<close>

datatype job = Fetch "call list" | Gather "call list list"

partial_function (option) engine ::
  "'w aggregate \<Rightarrow> bool \<Rightarrow> job \<Rightarrow> 'w multicall \<Rightarrow> ((exn + pyval list) \<times> 'w multicall) option" where
  "engine agg require_success j m =
     (case j of
        Fetch calls \<Rightarrow>
          (case try_fetch agg require_success calls m of
             (Inr results, m1) \<Rightarrow> Some (Inr results, m1)
           | (Inl e, m1) \<Rightarrow>
               (case raise_or_proceed e (length calls) of
                  Inl e' \<Rightarrow> Some (Inl e', m1)
                | Inr _ \<Rightarrow>
                    (case rebatch calls (batcher m1) of
                       None \<Rightarrow> None
                     | Some (sub_batches, b') \<Rightarrow>
                         engine agg require_success (Gather sub_batches) (m1\<lparr>batcher := b'\<rparr>))))
      | Gather [] \<Rightarrow> Some (Inr [], m)
      | Gather (batch # batches) \<Rightarrow>
          Option.bind (engine agg require_success (Fetch batch) m) (\<lambda>(r, m1).
            case r of
              Inl e \<Rightarrow> Some (Inl e, m1)
            | Inr batch_results \<Rightarrow>
                Option.bind (engine agg require_success (Gather batches) m1) (\<lambda>(r', m2).
                  case r' of
                    Inl e \<Rightarrow> Some (Inl e, m2)
                  | Inr items \<Rightarrow> Some (Inr (batch_results @ items), m2))))"

declare engine.simps [code]

definition fetch_outputs ::
  "'w aggregate \<Rightarrow> bool \<Rightarrow> call list \<Rightarrow> 'w multicall \<Rightarrow> ((exn + pyval list) \<times> 'w multicall) option" where
  "fetch_outputs agg require_success calls m = engine agg require_success (Fetch calls) m"

text \<open>
  \<^verbatim>\<open>Multicall.coroutine\<close>: partition \<^verbatim>\<open>self.calls\<close> with the current step, gather the
  batches, flatten.
\<close>

definition coroutine ::
  "'w aggregate \<Rightarrow> bool \<Rightarrow> call list \<Rightarrow> 'w multicall \<Rightarrow> ((exn + pyval list) \<times> 'w multicall) option" where
  "coroutine agg require_success calls m =
     (case batch_calls calls (step (batcher m)) of
        None \<Rightarrow> None
      | Some batches \<Rightarrow> engine agg require_success (Gather batches) m)"

text \<open>\<^verbatim>\<open>await Multicall(calls, require_success=...)\<close> on a fresh object.\<close>

definition run ::
  "'w aggregate \<Rightarrow> bool \<Rightarrow> call list \<Rightarrow> 'w \<Rightarrow> ((exn + pyval list) \<times> 'w multicall) option" where
  "run agg require_success calls w = coroutine agg require_success calls (multicall_init w)"

section \<open>Example inputs\<close>

text \<open>
  Inputs for the concrete instances below: a node that answers every request with one
  successful, empty output per call, and a call whose signature encodes to the empty
  payload and decodes every output to the single value 1.
\<close>

definition agg_ok :: "unit aggregate" where
  "agg_ok request w = (Inr (map (\<lambda>_. (True, [])) (snd request)), w)"

definition call_0 :: call where
  "call_0 = \<lparr>target = ''0x00'', args = None,
             signature = \<lparr>encode_data = (\<lambda>_. Inr []), decode_data = (\<lambda>_. Inr [PInt 1])\<rparr>,
             returns = None\<rparr>"


definition agg_script :: "(exn + (bool \<times> bytes) list) list aggregate" where
  "agg_script request w =
     (case w of
        [] \<Rightarrow> (Inl (Exception ''script exhausted''), [])
      | outcome # rest \<Rightarrow> (outcome, rest))"

section \<open>\<^verbatim>\<open>batch_calls\<close>: what the loop computes\<close>

lemma div_add_self_Suc: "0 < (b::nat) \<Longrightarrow> (a + b) div b = Suc (a div b)"
  using div_add_self2[of b a] by simp

lemma py_slice_nat: "py_slice xs (int a) (int a + int s) = take s (drop a xs)"
  by (auto simp: py_slice_def clamp_index_def Let_def min_def nat_add_distrib)

lemma batch_loop_chunks:
  assumes "0 < s" and "m = max 1 ((length calls - 1 - a + s - 1) div s)"
  shows "batch_loop calls (int s) (int (length calls) - 1) (int a) acc =
           Some (acc @ map (\<lambda>j. take s (drop (a + j * s) calls)) [0..<m])"
  using assms(2)
proof (induction "length calls - a" arbitrary: a acc m rule: less_induct)
  case less
  show ?case
  proof (cases "int a + int s \<ge> int (length calls) - 1")
    case True
    then have "length calls - 1 - a + s - 1 < 2 * s" using assms(1) by linarith
    then have "(length calls - 1 - a + s - 1) div s \<le> 1"
      by (metis less_mult_imp_div_less less_Suc_eq_le numeral_2_eq_2 One_nat_def)
    then have m: "m = 1" using less.prems by simp
    show ?thesis
      using True unfolding m by (subst batch_loop.simps) (simp add: py_slice_nat Let_def)
  next
    case False
    then have lt: "a + s < length calls - 1" by linarith
    then have dec: "length calls - (a + s) < length calls - a" using assms(1) by linarith
    define m' where "m' = max 1 ((length calls - 1 - (a + s) + s - 1) div s)"
    note IH = less.hyps[OF dec m'_def, of "acc @ [take s (drop a calls)]"]
    define x where "x = length calls - 1 - (a + s) + s - 1"
    have eq: "length calls - 1 - a + s - 1 = x + s"
      unfolding x_def using lt assms(1) by linarith
    have ge: "1 \<le> x div s"
      unfolding x_def using lt assms(1) by (simp add: Suc_le_eq div_greater_zero_iff)
    have m: "m = Suc m'"
    proof -
      have "(x + s) div s = Suc (x div s)" using assms(1) by (rule div_add_self_Suc)
      then show ?thesis
        unfolding less.prems m'_def eq x_def[symmetric] using ge by simp
    qed
    have "batch_loop calls (int s) (int (length calls) - 1) (int a) acc
          = batch_loop calls (int s) (int (length calls) - 1) (int (a + s))
              (acc @ [take s (drop a calls)])"
      using False by (subst batch_loop.simps) (simp add: py_slice_nat Let_def)
    also note IH
    finally have "batch_loop calls (int s) (int (length calls) - 1) (int a) acc =
        Some ((acc @ [take s (drop a calls)]) @
              map (\<lambda>j. take s (drop (a + s + j * s) calls)) [0..<m'])" .
    moreover have "map (\<lambda>j. take s (drop (a + j * s) calls)) [0..<Suc m'] =
        take s (drop a calls) # map (\<lambda>j. take s (drop (a + s + j * s) calls)) [0..<m']"
      by (simp only: map_upt_Suc) (simp add: ac_simps)
    ultimately show ?thesis unfolding m by simp
  qed
qed

lemma concat_chunks:
  "concat (map (\<lambda>j. take s (drop (j * s) xs)) [0..<m]) = take (m * s) xs"
proof (induction m)
  case 0
  show ?case by simp
next
  case (Suc m)
  have "take (Suc m * s) xs = take (m * s + s) xs" by (simp add: add.commute)
  also have "\<dots> = take (m * s) xs @ take s (drop (m * s) xs)" by (rule take_add)
  finally show ?case using Suc by simp
qed


lemma batch_calls_chunks:
  assumes "0 < s"
  shows "batch_calls calls (int s) =
           Some (map (\<lambda>j. take s (drop (j * s) calls))
                   [0..<max 1 ((length calls - 1 + s - 1) div s)])"
  using batch_loop_chunks[OF assms refl, of calls 0 "[]"]
  by (simp add: batch_calls_def)


lemma chunk_count_exact:
  assumes "0 < (s::nat)" and "0 < n" and "n = 1 \<or> \<not> s dvd (n - 1)"
  shows "max 1 ((n - 1 + s - 1) div s) = (n + s - 1) div s"
proof -
  obtain k where n: "n = Suc k" using assms(2) by (cases n) auto
  have r: "(n + s - 1) div s = Suc (k div s)"
    unfolding n using div_add_self_Suc[OF assms(1), of k] by simp
  show ?thesis
  proof (cases "k = 0")
    case True
    then show ?thesis unfolding r unfolding n using assms(1) by simp
  next
    case False
    then have nd: "\<not> s dvd k" using assms(3) unfolding n by simp
    then have pos: "0 < k mod s" by (simp add: mod_greater_zero_iff_not_dvd)
    have "k = k div s * s + k mod s" by simp
    then have "k + s - 1 = k div s * s + (k mod s - 1) + s"
      using pos by linarith
    then have "(k + s - 1) div s = Suc ((k div s * s + (k mod s - 1)) div s)"
      using div_add_self_Suc[OF assms(1), of "k div s * s + (k mod s - 1)"] by simp
    moreover have "k mod s - 1 < s"
      using assms(1) by (simp add: less_imp_diff_less)
    then have "(k div s * s + (k mod s - 1)) div s = k div s"
      using div_mult_self3[of s "k div s" "k mod s - 1"] assms(1) by simp
    ultimately have "(k + s - 1) div s = Suc (k div s)" by simp
    then show ?thesis unfolding r unfolding n by simp
  qed
qed

lemma ceil_div_bounds:
  assumes "0 < (s::nat)" and "0 < n"
  shows "n \<le> ((n + s - 1) div s) * s" and "((n + s - 1) div s - 1) * s < n"
proof -
  obtain k where n: "n = Suc k" using assms(2) by (cases n) auto
  have r: "(n + s - 1) div s = Suc (k div s)"
    unfolding n using div_add_self_Suc[OF assms(1), of k] by simp
  have k: "k = k div s * s + k mod s" by simp
  have "k mod s < s" using assms(1) by simp
  then have "k < k div s * s + s" using k by linarith
  then show "n \<le> ((n + s - 1) div s) * s" unfolding r unfolding n by simp
  have "k div s * s \<le> k" by simp
  then show "((n + s - 1) div s - 1) * s < n" unfolding r unfolding n
    by (simp add: less_Suc_eq_le)
qed

text \<open>
  C2, as amended.  For a size \<open>S \<ge> 1\<close>: on the empty list \<^verbatim>\<open>batch_calls\<close> returns one
  empty chunk; on \<open>N \<ge> 1\<close> calls such that \<open>N - 1\<close> is not a positive multiple of \<open>S\<close>
  it returns exactly \<open>\<lceil>N / S\<rceil>\<close> chunks, every chunk but the last of size \<open>S\<close>, the last
  of size between 1 and \<open>S\<close>, none empty, and their concatenation is the input.
\<close>

theorem batch_calls_partition:
  fixes calls :: "'a list" and S :: int
  assumes "1 \<le> S"
  shows "(calls = [] \<longrightarrow> batch_calls calls S = Some [[]]) \<and>
         (calls \<noteq> [] \<and> (length calls = 1 \<or> \<not> nat S dvd (length calls - 1)) \<longrightarrow>
            (\<exists>bs. batch_calls calls S = Some bs \<and>
                  length bs = (length calls + nat S - 1) div nat S \<and>
                  (\<forall>b \<in> set (butlast bs). length b = nat S) \<and>
                  0 < length (last bs) \<and> length (last bs) \<le> nat S \<and>
                  [] \<notin> set bs \<and>
                  concat bs = calls))"
proof (intro conjI impI)
  define s where "s = nat S"
  have s: "0 < s" and S: "S = int s" using assms by (simp_all add: s_def)
  {
    assume "calls = []"
    then show "batch_calls calls S = Some [[]]"
      unfolding S using batch_calls_chunks[OF s, of calls] s by simp
  }
  assume a: "calls \<noteq> [] \<and> (length calls = 1 \<or> \<not> nat S dvd (length calls - 1))"
  define n where "n = length calls"
  define m where "m = (n + s - 1) div s"
  define f where "f = (\<lambda>j. take s (drop (j * s) calls))"
  have n: "0 < n" using a by (simp add: n_def)
  have cnt: "max 1 ((n - 1 + s - 1) div s) = m"
    unfolding m_def using a by (intro chunk_count_exact[OF s n]) (simp add: n_def s_def)
  have bs: "batch_calls calls S = Some (map f [0..<m])"
    unfolding S f_def using batch_calls_chunks[OF s, of calls] cnt by (simp add: n_def)
  have up: "n \<le> m * s" and lo: "(m - 1) * s < n"
    unfolding m_def using ceil_div_bounds[OF s n] by simp_all
  have m: "0 < m" using up n by (cases m) auto
  have len: "length (f j) = min s (n - j * s)" for j
    by (simp add: f_def n_def min.commute)
  have full: "length (f j) = s" if "j < m - 1" for j
  proof -
    have "Suc j \<le> m - 1" using that by simp
    then have "Suc j * s \<le> (m - 1) * s" by (rule mult_le_mono1)
    then have "Suc j * s < n" using lo by (rule le_less_trans)
    then have "j * s + s < n" by (simp add: add.commute)
    then show ?thesis unfolding len by simp
  qed
  have pos: "0 < length (f j)" if "j < m" for j
  proof -
    have "j \<le> m - 1" using that by simp
    then have "j * s \<le> (m - 1) * s" by (rule mult_le_mono1)
    then have "j * s < n" using lo by (rule le_less_trans)
    then show ?thesis unfolding len using s by simp
  qed
  have bl: "butlast (map f [0..<m]) = map f [0..<m - 1]"
    using m by (cases m) (simp_all add: map_butlast[symmetric])
  have la: "last (map f [0..<m]) = f (m - 1)"
    using m by (cases m) (simp_all add: last_map)
  have "length (map f [0..<m]) = (length calls + nat S - 1) div nat S"
    by (simp add: m_def n_def s_def)
  moreover have "\<forall>b \<in> set (butlast (map f [0..<m])). length b = nat S"
    unfolding bl using full by (auto simp: s_def)
  moreover have "0 < length (last (map f [0..<m]))"
    unfolding la using pos[of "m - 1"] m by simp
  moreover have "length (last (map f [0..<m])) \<le> nat S"
    unfolding la len by (simp add: s_def)
  moreover have "[] \<notin> set (map f [0..<m])"
    using pos by fastforce
  moreover have "concat (map f [0..<m]) = calls"
    unfolding f_def concat_chunks using up by (simp add: n_def)
  ultimately show "\<exists>bs. batch_calls calls S = Some bs \<and>
                  length bs = (length calls + nat S - 1) div nat S \<and>
                  (\<forall>b \<in> set (butlast bs). length b = nat S) \<and>
                  0 < length (last bs) \<and> length (last bs) \<le> nat S \<and>
                  [] \<notin> set bs \<and>
                  concat bs = calls"
    using bs by blast
qed


theorem batch_calls_partition_witness:
  "batch_calls ([] :: nat list) 4 = Some [[]] \<and>
   (1::int) \<le> 4 \<and> [10, 11, 12, 13, 14, 15 :: nat] \<noteq> [] \<and>
   \<not> nat 4 dvd (length [10, 11, 12, 13, 14, 15 :: nat] - 1) \<and>
   (\<exists>bs. batch_calls [10, 11, 12, 13, 14, 15 :: nat] 4 = Some bs \<and>
         length bs = 2 \<and>
         (\<forall>b \<in> set (butlast bs). length b = 4) \<and>
         0 < length (last bs) \<and> length (last bs) \<le> 4 \<and>
         [] \<notin> set bs \<and>
         concat bs = [10, 11, 12, 13, 14, 15])"
proof -
  have len: "length [10, 11, 12, 13, 14, 15 :: nat] - 1 = 5" by simp
  have "\<not> (4::nat) dvd 5" by presburger
  then have h: "\<not> nat 4 dvd (length [10, 11, 12, 13, 14, 15 :: nat] - 1)"
    unfolding len by simp
  have d: "(length [10, 11, 12, 13, 14, 15 :: nat] + nat 4 - 1) div nat 4 = 2" by simp
  show ?thesis
    using batch_calls_partition [of 4 "[10, 11, 12, 13, 14, 15 :: nat]"]
      batch_calls_partition [of 4 "[] :: nat list"] h
    unfolding d by simp
qed

text \<open>
  C2, as stated, fails on the empty list: \<open>\<lceil>0 / 1\<rceil> = 0\<close> chunks are claimed and none
  may be empty, but the loop body runs once and returns one empty chunk.
\<close>

theorem batch_calls_empty_counterexample:
  "batch_calls ([] :: nat list) 1 = Some [[]] \<and>
   length (the (batch_calls ([] :: nat list) 1)) \<noteq> (length ([] :: nat list) + 1 - 1) div 1 \<and>
   [] \<in> set (the (batch_calls ([] :: nat list) 1))"
  by (simp add: batch_calls_def Let_def batch_loop.simps py_slice_def clamp_index_def)

section \<open>The float expression never exceeds the length\<close>

declare excess_bits.simps [simp del]

lemma excess_bits_small: "p < 2 ^ 53 \<Longrightarrow> excess_bits p = 0"
  by (subst excess_bits.simps) simp

lemma excess_bits_large: "\<not> p < 2 ^ 53 \<Longrightarrow> excess_bits p = Suc (excess_bits (p div 2))"
  by (subst excess_bits.simps) simp

lemma excess_bits_lower: "0 < excess_bits p \<Longrightarrow> 2 ^ (52 + excess_bits p) \<le> p"
proof (induction p rule: excess_bits.induct)
  case (1 p)
  show ?case
  proof (cases "p < 2 ^ 53")
    case True
    then show ?thesis using "1.prems" by (simp add: excess_bits_small)
  next
    case False
    note e = excess_bits_large[OF False]
    show ?thesis
    proof (cases "0 < excess_bits (p div 2)")
      case True
      from "1.IH"[OF False True] have "2 * 2 ^ (52 + excess_bits (p div 2)) \<le> 2 * (p div 2)"
        by simp
      also have "\<dots> \<le> p" by simp
      finally have "2 * 2 ^ (52 + excess_bits (p div 2)) \<le> p" .
      moreover have "(2::nat) ^ (52 + Suc (excess_bits (p div 2))) = 2 * 2 ^ (52 + excess_bits (p div 2))"
        by (simp only: add_Suc_right power_Suc)
      ultimately show ?thesis unfolding e by (simp only:)
    next
      case False
      then have "excess_bits p = 1" unfolding e by simp
      then show ?thesis using \<open>\<not> p < 2 ^ 53\<close> by simp
    qed
  qed
qed

lemma round_half_even_upper: "2 * (round_half_even p s * 2 ^ s) \<le> 2 * p + 2 ^ s"
proof -
  have p: "p = p div 2 ^ s * 2 ^ s + p mod 2 ^ s" by (rule div_mult_mod_eq[symmetric])
  show ?thesis
  proof (cases "2 * (p mod 2 ^ s) > 2 ^ s \<or> (2 * (p mod 2 ^ s) = 2 ^ s \<and> odd (p div 2 ^ s))")
    case True
    then have r: "2 ^ s \<le> 2 * (p mod 2 ^ s)" by auto
    have "round_half_even p s = p div 2 ^ s + 1"
      using True by (simp add: round_half_even_def Let_def)
    then have "2 * (round_half_even p s * 2 ^ s) = 2 * (p div 2 ^ s * 2 ^ s) + 2 * 2 ^ s"
      by (simp add: algebra_simps)
    also have "\<dots> \<le> 2 * (p div 2 ^ s * 2 ^ s) + 2 * (p mod 2 ^ s) + 2 ^ s"
      using r by simp
    also have "\<dots> = 2 * p + 2 ^ s" using p by (metis add_mult_distrib2)
    finally show ?thesis .
  next
    case False
    then have "round_half_even p s = p div 2 ^ s"
      by (simp add: round_half_even_def Let_def)
    then have "round_half_even p s * 2 ^ s \<le> p" by simp
    then show ?thesis by simp
  qed
qed

lemma to_double_upper: "2 ^ 53 * to_double p \<le> (2 ^ 53 + 1) * p"
proof (cases "excess_bits p = 0")
  case True
  then show ?thesis by (simp add: to_double_def round_half_even_def)
next
  case False
  define s where "s = excess_bits p"
  have "2 ^ (52 + s) \<le> p" unfolding s_def using False excess_bits_lower by simp
  then have a: "2 ^ 52 * 2 ^ s \<le> p" by (simp add: power_add)
  have "2 * to_double p \<le> 2 * p + 2 ^ s"
    unfolding to_double_def s_def[symmetric] Let_def by (rule round_half_even_upper)
  then have "2 ^ 52 * (2 * to_double p) \<le> 2 ^ 52 * (2 * p + 2 ^ s)"
    by (rule mult_le_mono2)
  also have "\<dots> = 2 ^ 53 * p + 2 ^ 52 * 2 ^ s" by (simp add: algebra_simps)
  also have "\<dots> \<le> 2 ^ 53 * p + p" using a by simp
  finally show ?thesis by (simp add: algebra_simps)
qed

lemma round_half_even_le: "p \<le> n * 2 ^ s \<Longrightarrow> round_half_even p s \<le> n"
proof -
  assume le: "p \<le> n * 2 ^ s"
  have p: "p = p div 2 ^ s * 2 ^ s + p mod 2 ^ s" by (rule div_mult_mod_eq[symmetric])
  have q: "p div 2 ^ s \<le> n"
    using le by (metis div_le_mono div_mult_self_is_m zero_less_numeral zero_less_power)
  show ?thesis
  proof (cases "p div 2 ^ s = n")
    case True
    then have "p mod 2 ^ s = 0" using p le by simp
    then show ?thesis using True by (simp add: round_half_even_def Let_def)
  next
    case False
    then have "p div 2 ^ s < n" using q by simp
    then show ?thesis by (simp add: round_half_even_def Let_def)
  qed
qed

lemma round_099_le: "round_099 n \<le> int n"
proof -
  define d where "d = to_double (to_double n * double_099)"
  have "2 ^ 53 * (2 ^ 53 * d) \<le> 2 ^ 53 * ((2 ^ 53 + 1) * (to_double n * double_099))"
    unfolding d_def by (rule mult_le_mono2) (rule to_double_upper)
  also have "\<dots> = (2 ^ 53 + 1) * double_099 * (2 ^ 53 * to_double n)"
    by (simp add: algebra_simps)
  also have "\<dots> \<le> (2 ^ 53 + 1) * double_099 * ((2 ^ 53 + 1) * n)"
    by (rule mult_le_mono2) (rule to_double_upper)
  also have "\<dots> = ((2 ^ 53 + 1) * double_099 * (2 ^ 53 + 1)) * n"
    by (simp add: algebra_simps)
  also have "\<dots> \<le> (2 ^ 53 * 2 ^ 53 * 2 ^ 53) * n"
    by (rule mult_le_mono1) (simp add: double_099_def)
  finally have "2 ^ 53 * 2 ^ 53 * d \<le> 2 ^ 53 * 2 ^ 53 * (n * 2 ^ 53)"
    by (simp add: algebra_simps)
  then have "d \<le> n * 2 ^ 53" by simp
  then have "round_half_even d 53 \<le> n" by (rule round_half_even_le)
  then show ?thesis by (simp add: round_099_def d_def)
qed

lemma round_099_100: "round_099 100 = 99"
  by (simp add: round_099_def to_double_def round_half_even_def double_099_def excess_bits.simps Let_def)

text \<open>
  Values of \<^verbatim>\<open>round(n * 0.99)\<close> as Python computes them; 150, 250 and 350 are ties
  (148.5, 247.5, 346.5) and go to the even neighbour.
\<close>

lemma round_099_examples:
  "map round_099 [100, 101, 149, 150, 151, 250, 350, 10000] =
     [99, 100, 148, 148, 149, 248, 346, 9900]"
  by (simp add: round_099_def to_double_def round_half_even_def double_099_def excess_bits.simps Let_def)

section \<open>\<^verbatim>\<open>rebatch\<close>\<close>

lemma split_calls_eq: "split_calls calls = (take (length calls div 2) calls, drop (length calls div 2) calls)"
  by (simp add: split_calls_def Let_def)

lemma rebatch_step_le:
  assumes "rebatch calls b = Some (batches, b')"
  shows "step b' \<le> step b"
proof (cases "step b \<le> int (length calls div 2)")
  case True
  then show ?thesis using assms by (auto simp: rebatch_def)
next
  case False
  note nh = this
  show ?thesis
  proof (cases "step b \<ge> int (length calls)")
    case False
    then show ?thesis using assms nh by (auto simp: rebatch_def split_calls_eq Let_def)
  next
    case True
    have "round_099 (length calls) \<le> int (length calls)" by (rule round_099_le)
    then show ?thesis using assms nh True
      by (auto simp: rebatch_def split_calls_eq Let_def split: if_splits)
  qed
qed


text \<open>
  C3, as amended.  If \<^verbatim>\<open>step\<close> is at most \<^verbatim>\<open>len(calls) // 2\<close>, \<^verbatim>\<open>rebatch\<close> returns
  \<^verbatim>\<open>batch_calls(calls, step)\<close> and leaves \<^verbatim>\<open>step\<close> alone.  Otherwise it returns exactly the
  two halves of \<^verbatim>\<open>calls\<close>, of sizes \<open>\<lfloor>B / 2\<rfloor>\<close> and \<open>B - \<lfloor>B / 2\<rfloor>\<close>, and it changes \<^verbatim>\<open>step\<close>
  only when \<^verbatim>\<open>step >= len(calls)\<close>: the new step is then \<^verbatim>\<open>round(len(calls) * 0.99)\<close>
  for 100 calls or more and \<^verbatim>\<open>len(calls) - 1\<close> below; for
  \<^verbatim>\<open>len(calls) // 2 < step < len(calls)\<close> the step stays as it is.
\<close>

theorem rebatch_decision:
  fixes calls :: "'a list" and b :: batcher
  shows "(step b \<le> int (length calls div 2) \<longrightarrow>
            rebatch calls b = map_option (\<lambda>batches. (batches, b)) (batch_calls calls (step b))) \<and>
         (\<not> step b \<le> int (length calls div 2) \<longrightarrow>
            rebatch calls b =
              Some ([take (length calls div 2) calls, drop (length calls div 2) calls],
                    b\<lparr>step := (if step b \<ge> int (length calls)
                                then (if length calls \<ge> 100 then round_099 (length calls)
                                      else int (length calls) - 1)
                                else step b)\<rparr>) \<and>
            take (length calls div 2) calls @ drop (length calls div 2) calls = calls \<and>
            length (take (length calls div 2) calls) = length calls div 2 \<and>
            length (drop (length calls div 2) calls) = length calls - length calls div 2)"
proof (intro conjI impI)
  assume "step b \<le> int (length calls div 2)"
  then show "rebatch calls b = map_option (\<lambda>batches. (batches, b)) (batch_calls calls (step b))"
    by (simp add: rebatch_def)
next
  assume large: "\<not> step b \<le> int (length calls div 2)"
  show "rebatch calls b =
          Some ([take (length calls div 2) calls, drop (length calls div 2) calls],
                b\<lparr>step := (if step b \<ge> int (length calls)
                            then (if length calls \<ge> 100 then round_099 (length calls)
                                  else int (length calls) - 1)
                            else step b)\<rparr>)"
  proof (cases "step b \<ge> int (length calls)")
    case True
    then show ?thesis using large by (simp add: rebatch_def split_calls_eq)
  next
    case False
    then show ?thesis using large by (simp add: rebatch_def split_calls_eq)
  qed
next
  show "take (length calls div 2) calls @ drop (length calls div 2) calls = calls"
    by (rule append_take_drop_id)
next
  show "length (take (length calls div 2) calls) = length calls div 2"
    by simp
next
  show "length (drop (length calls div 2) calls) = length calls - length calls div 2"
    by simp
qed

theorem rebatch_decision_witness:
  "((2::int) \<le> int (length [11, 12, 13, 14, 15, 16 :: nat] div 2) \<and>
    rebatch [11, 12, 13, 14, 15, 16 :: nat] \<lparr>step = 2\<rparr> = Some ([[11, 12], [13, 14], [15, 16]], \<lparr>step = 2\<rparr>)) \<and>
   (\<not> (10000::int) \<le> int (length [11, 12, 13 :: nat] div 2) \<and>
    rebatch [11, 12, 13 :: nat] \<lparr>step = 10000\<rparr> = Some ([[11], [12, 13]], \<lparr>step = 2\<rparr>)) \<and>
   (\<not> (10000::int) \<le> int (length (replicate 100 (7::nat)) div 2) \<and>
    rebatch (replicate 100 (7::nat)) \<lparr>step = 10000\<rparr> =
      Some ([replicate 50 7, replicate 50 7], \<lparr>step = 99\<rparr>))"
proof -
  have a: "batch_calls [11, 12, 13, 14, 15, 16 :: nat] 2 = Some [[11, 12], [13, 14], [15, 16]]"
    by (simp add: batch_calls_def Let_def batch_loop.simps py_slice_def clamp_index_def)
  show ?thesis
    using rebatch_decision [of "\<lparr>step = 2\<rparr>" "[11, 12, 13, 14, 15, 16 :: nat]"]
      rebatch_decision [of "\<lparr>step = 10000\<rparr>" "[11, 12, 13 :: nat]"]
      rebatch_decision [of "\<lparr>step = 10000\<rparr>" "replicate 100 (7::nat)"]
    by (simp add: a round_099_100)
qed

text \<open>
  C3, as stated, fails for six calls at step 4: 4 is more than half of 6, so the claim
  has the step shrink to \<open>6 - 1 = 5\<close>; the code returns the two halves and keeps step 4.
\<close>

theorem rebatch_keeps_step_counterexample:
  "\<not> (4::int) \<le> int (length [11, 12, 13, 14, 15, 16 :: nat] div 2) \<and>
   rebatch [11, 12, 13, 14, 15, 16 :: nat] \<lparr>step = 4\<rparr> = Some ([[11, 12, 13], [14, 15, 16]], \<lparr>step = 4\<rparr>) \<and>
   (4::int) \<noteq> int (length [11, 12, 13, 14, 15, 16 :: nat]) - 1"
  by (simp add: rebatch_def split_calls_def)

section \<open>Unfolding the engine\<close>

text \<open>
  The recursive equation of \<open>engine\<close>, one equation per kind of job, so that a run on
  concrete batches can be rewritten step by step.
\<close>

lemma engine_Fetch:
  "engine agg rs (Fetch calls) m =
     (case try_fetch agg rs calls m of
        (Inr results, m1) \<Rightarrow> Some (Inr results, m1)
      | (Inl e, m1) \<Rightarrow>
          (case raise_or_proceed e (length calls) of
             Inl e' \<Rightarrow> Some (Inl e', m1)
           | Inr _ \<Rightarrow>
               (case rebatch calls (batcher m1) of
                  None \<Rightarrow> None
                | Some (sub_batches, b') \<Rightarrow>
                    engine agg rs (Gather sub_batches) (m1\<lparr>batcher := b'\<rparr>))))"
  by (subst engine.simps) simp

lemma engine_Gather_Nil: "engine agg rs (Gather []) m = Some (Inr [], m)"
  by (subst engine.simps) simp

lemma engine_Gather_Cons:
  "engine agg rs (Gather (batch # batches)) m =
     Option.bind (engine agg rs (Fetch batch) m) (\<lambda>(r, m1).
       case r of
         Inl e \<Rightarrow> Some (Inl e, m1)
       | Inr batch_results \<Rightarrow>
           Option.bind (engine agg rs (Gather batches) m1) (\<lambda>(r', m2).
             case r' of
               Inl e \<Rightarrow> Some (Inl e, m2)
             | Inr items \<Rightarrow> Some (Inr (batch_results @ items), m2)))"
  by (subst engine.simps) simp

lemmas engine_eval = engine_Fetch engine_Gather_Nil engine_Gather_Cons

lemma engine_Gather_single: "engine agg rs (Gather [batch]) m = engine agg rs (Fetch batch) m"
  by (cases "engine agg rs (Fetch batch) m")
     (auto simp: engine_Gather_Cons engine_Gather_Nil split: sum.splits)

lemma get_args_Nil: "get_args rs [] = Inr (rs, [])"
  by (simp add: get_args_def)

lemma try_fetch_Nil:
  "try_fetch agg rs [] m =
     (case agg (rs, []) (world m) of (outcome, w') \<Rightarrow>
        (map_sum id (\<lambda>_. []) outcome, m\<lparr>world := w', dispatched := dispatched m @ [(rs, [])]\<rparr>))"
  by (simp add: try_fetch_def get_args_Nil Let_def split: prod.splits sum.splits)

lemma try_fetch_batcher: "try_fetch agg rs calls m = (r, m1) \<Longrightarrow> batcher m1 = batcher m"
  by (auto simp: try_fetch_def Let_def split: sum.splits prod.splits)

lemma engine_step_le:
  assumes "engine agg rs j m = Some y"
  shows "step (batcher (snd y)) \<le> step (batcher m)"
proof (rule engine.raw_induct
    [where P = "\<lambda>_ _ _ m y. step (batcher (snd y)) \<le> step (batcher m)", OF _ assms], goal_cases)
  case (1 engine agg rs j m y)
  note IH = "1"(1) and prems = "1"(2)
  show ?case
  proof (cases j)
    case (Fetch calls)
    obtain r m1 where t: "try_fetch agg rs calls m = (r, m1)" by (cases "try_fetch agg rs calls m")
    note b = try_fetch_batcher[OF t]
    show ?thesis
    proof (cases r)
      case (Inr results)
      then show ?thesis using prems Fetch t b by auto
    next
      case (Inl e)
      show ?thesis
      proof (cases "raise_or_proceed e (length calls)")
        case (Inl e')
        then show ?thesis using prems Fetch t b \<open>r = Inl e\<close> by auto
      next
        case (Inr u)
        then obtain subs b' where rb: "rebatch calls (batcher m1) = Some (subs, b')"
          and rec: "engine agg rs (Gather subs) (m1\<lparr>batcher := b'\<rparr>) = Some y"
          using prems Fetch t \<open>r = Inl e\<close> by (auto split: option.splits)
        from IH[OF rec] have "step (batcher (snd y)) \<le> step b'" by simp
        also have "\<dots> \<le> step (batcher m1)" by (rule rebatch_step_le[OF rb])
        finally show ?thesis using b by simp
      qed
    qed
  next
    case (Gather bs)
    show ?thesis
    proof (cases bs)
      case Nil
      then show ?thesis using prems Gather by auto
    next
      case (Cons batch batches)
      then obtain r m1 where f: "engine agg rs (Fetch batch) m = Some (r, m1)"
        using prems Gather by (auto split: Option.bind_splits)
      from IH[OF f] have le1: "step (batcher m1) \<le> step (batcher m)" by simp
      show ?thesis
      proof (cases r)
        case (Inl e)
        then show ?thesis using prems Gather Cons f le1 by auto
      next
        case (Inr batch_results)
        then obtain r' m2 where g: "engine agg rs (Gather batches) m1 = Some (r', m2)"
          and y: "snd y = m2"
          using prems Gather Cons f by (auto split: Option.bind_splits sum.splits)
        from IH[OF g] have "step (batcher m2) \<le> step (batcher m1)" by simp
        then show ?thesis using le1 y by simp
      qed
    qed
  qed
qed

section \<open>The classifier\<close>

text \<open>\<open>contains s t\<close> is the substring test: \<open>t\<close> occurs in \<open>s\<close> as a contiguous block.\<close>

lemma contains_iff: "contains s t \<longleftrightarrow> (\<exists>ps ss. s = ps @ t @ ss)"
proof (induction s)
  case Nil
  show ?case by auto
next
  case (Cons c s)
  show ?case
  proof
    assume "contains (c # s) t"
    then consider "prefix t (c # s)" | "contains s t" by auto
    then show "\<exists>ps ss. c # s = ps @ t @ ss"
    proof cases
      case 1
      then obtain ss where "c # s = t @ ss" by (auto simp: prefix_def)
      then have "c # s = [] @ t @ ss" by simp
      then show ?thesis by blast
    next
      case 2
      then obtain ps ss where "s = ps @ t @ ss" using Cons.IH by blast
      then have "c # s = (c # ps) @ t @ ss" by simp
      then show ?thesis by blast
    qed
  next
    assume "\<exists>ps ss. c # s = ps @ t @ ss"
    then obtain ps ss where e: "c # s = ps @ t @ ss" by blast
    show "contains (c # s) t"
    proof (cases ps)
      case Nil
      then have "prefix t (c # s)" using e by (simp add: prefix_def)
      then show ?thesis by simp
    next
      case (Cons p ps')
      then have "s = ps' @ t @ ss" using e by simp
      then have "contains s t" using Cons.IH by blast
      then show ?thesis by simp
    qed
  qed
qed

text \<open>
  C4.  \<^verbatim>\<open>_raise_or_proceed(e, n)\<close> returns normally exactly when the lower-cased message
  contains one of the nine triggers and it is not the case that it contains
  \<^verbatim>\<open>out of gas\<close> with \<open>n = 1\<close>; otherwise it re-raises \<^verbatim>\<open>e\<close>.  A batch of one call whose
  dispatch fails with an out-of-gas message makes \<^verbatim>\<open>fetch_outputs\<close> raise that error
  with the state left by the one dispatch: no re-batching, no further request.
\<close>

theorem raise_or_proceed_iff:
  "(raise_or_proceed e n = Inr () \<longleftrightarrow>
      (contains (lower (str e)) ''request entity too large'' \<or>
       contains (lower (str e)) ''payload too large'' \<or>
       contains (lower (str e)) ''time-out'' \<or>
       contains (lower (str e)) ''timeout'' \<or>
       contains (lower (str e)) ''broken pipe'' \<or>
       contains (lower (str e)) ''connection reset by peer'' \<or>
       contains (lower (str e)) ''out of gas'' \<or>
       contains (lower (str e)) ''out of memory'' \<or>
       contains (lower (str e)) ''server error'') \<and>
      \<not> (contains (lower (str e)) ''out of gas'' \<and> n = 1)) \<and>
   (raise_or_proceed e n \<noteq> Inr () \<longrightarrow> raise_or_proceed e n = Inl e) \<and>
   (try_fetch agg rs [c] m = (Inl e, m1) \<and> contains (lower (str e)) ''out of gas'' \<longrightarrow>
      fetch_outputs agg rs [c] m = Some (Inl e, m1))"
proof (intro conjI impI)
  show "raise_or_proceed e n = Inr () \<longleftrightarrow>
      (contains (lower (str e)) ''request entity too large'' \<or>
       contains (lower (str e)) ''payload too large'' \<or>
       contains (lower (str e)) ''time-out'' \<or>
       contains (lower (str e)) ''timeout'' \<or>
       contains (lower (str e)) ''broken pipe'' \<or>
       contains (lower (str e)) ''connection reset by peer'' \<or>
       contains (lower (str e)) ''out of gas'' \<or>
       contains (lower (str e)) ''out of memory'' \<or>
       contains (lower (str e)) ''server error'') \<and>
      \<not> (contains (lower (str e)) ''out of gas'' \<and> n = 1)"
    unfolding raise_or_proceed_def rebatch_triggers_def Let_def list_ex_Cons_iff list_ex_Nil_iff
    by (auto split: if_splits)
  show "raise_or_proceed e n = Inl e" if "raise_or_proceed e n \<noteq> Inr ()"
    using that unfolding raise_or_proceed_def Let_def by (simp split: if_splits)
  assume a: "try_fetch agg rs [c] m = (Inl e, m1) \<and> contains (lower (str e)) ''out of gas''"
  then have "list_ex (contains (lower (str e))) rebatch_triggers"
    unfolding rebatch_triggers_def list_ex_Cons_iff list_ex_Nil_iff by simp
  then have "raise_or_proceed e (length [c]) = Inl e"
    using a unfolding raise_or_proceed_def Let_def by simp
  then show "fetch_outputs agg rs [c] m = Some (Inl e, m1)"
    using a by (simp add: fetch_outputs_def engine_Fetch)
qed


theorem raise_or_proceed_iff_witness:
  "raise_or_proceed (Exception ''Out Of Gas'') 1 \<noteq> Inr () \<and>
   raise_or_proceed (Exception ''Out Of Gas'') 1 = Inl (Exception ''Out Of Gas'') \<and>
   raise_or_proceed (Exception ''Out Of Gas'') 2 = Inr () \<and>
   try_fetch agg_script False [call_0]
     \<lparr>batcher = batcher_init, world = [Inl (Exception ''Out Of Gas'')], dispatched = []\<rparr> =
     (Inl (Exception ''Out Of Gas''),
      \<lparr>batcher = batcher_init, world = [], dispatched = [(False, [(''0x00'', [])])]\<rparr>) \<and>
   contains (lower (str (Exception ''Out Of Gas''))) ''out of gas'' \<and>
   fetch_outputs agg_script False [call_0]
     \<lparr>batcher = batcher_init, world = [Inl (Exception ''Out Of Gas'')], dispatched = []\<rparr> =
     Some (Inl (Exception ''Out Of Gas''),
           \<lparr>batcher = batcher_init, world = [], dispatched = [(False, [(''0x00'', [])])]\<rparr>)"
proof -
  have l: "lower ''Out Of Gas'' = ''out of gas''" by code_simp
  have t: "try_fetch agg_script False [call_0]
     \<lparr>batcher = batcher_init, world = [Inl (Exception ''Out Of Gas'')], dispatched = []\<rparr> =
     (Inl (Exception ''Out Of Gas''),
      \<lparr>batcher = batcher_init, world = [], dispatched = [(False, [(''0x00'', [])])]\<rparr>)"
    by (simp add: try_fetch_def get_args_def data_def call_0_def agg_script_def)
  show ?thesis
    using raise_or_proceed_iff [of "Exception ''Out Of Gas''" 1 agg_script False call_0
        "\<lparr>batcher = batcher_init, world = [Inl (Exception ''Out Of Gas'')], dispatched = []\<rparr>"
        "\<lparr>batcher = batcher_init, world = [], dispatched = [(False, [(''0x00'', [])])]\<rparr>"]
      raise_or_proceed_iff [of "Exception ''Out Of Gas''" 2 agg_script False call_0
        "\<lparr>batcher = batcher_init, world = [Inl (Exception ''Out Of Gas'')], dispatched = []\<rparr>"
        "\<lparr>batcher = batcher_init, world = [], dispatched = [(False, [(''0x00'', [])])]\<rparr>"]
    by (simp add: l t)
qed

section \<open>\<^verbatim>\<open>decode_output\<close>\<close>

text \<open>
  C8.  With \<^verbatim>\<open>returns=None\<close>, \<^verbatim>\<open>success\<close> true or unknown, and an output that decodes:
  one decoded value is returned as that value itself, two or more are returned as the
  whole ordered sequence.
\<close>

theorem decode_output_no_returns:
  assumes "success = None \<or> success = Some True"
    and "decode_data sig output = Inr decoded"
  shows "(decoded = [v] \<longrightarrow> decode_output output sig None success = Inr v) \<and>
         (2 \<le> length decoded \<longrightarrow> decode_output output sig None success = Inr (PSeq decoded))"
  using assms by (auto simp: decode_output_def Let_def split: list.splits)

theorem decode_output_no_returns_witness:
  "(Some True = None \<or> Some True = Some True) \<and>
   decode_data \<lparr>encode_data = (\<lambda>_. Inr []), decode_data = (\<lambda>_. Inr [PInt 7])\<rparr> ''ab'' = Inr [PInt 7] \<and>
   decode_output ''ab'' \<lparr>encode_data = (\<lambda>_. Inr []), decode_data = (\<lambda>_. Inr [PInt 7])\<rparr>
     None (Some True) = Inr (PInt 7) \<and>
   (None = None \<or> None = Some True) \<and>
   decode_data \<lparr>encode_data = (\<lambda>_. Inr []), decode_data = (\<lambda>_. Inr [PInt 7, PBool True])\<rparr> ''ab'' =
     Inr [PInt 7, PBool True] \<and>
   2 \<le> length [PInt 7, PBool True] \<and>
   decode_output ''ab'' \<lparr>encode_data = (\<lambda>_. Inr []), decode_data = (\<lambda>_. Inr [PInt 7, PBool True])\<rparr>
     None None = Inr (PSeq [PInt 7, PBool True])"
  using decode_output_no_returns [of "Some True"
      "\<lparr>encode_data = (\<lambda>_. Inr []), decode_data = (\<lambda>_. Inr [PInt 7])\<rparr>" "''ab''" "[PInt 7]" "PInt 7"]
    decode_output_no_returns [of None
      "\<lparr>encode_data = (\<lambda>_. Inr []), decode_data = (\<lambda>_. Inr [PInt 7, PBool True])\<rparr>" "''ab''"
      "[PInt 7, PBool True]" "PNone"]
  by simp

lemma update_fresh: "k \<notin> fst ` set d \<Longrightarrow> AList.update k v d = d @ [(k, v)]"
  by (induction d) auto

lemma build_dict_distinct:
  assumes "distinct (map fst rs)"
    and "fst ` set rs \<inter> fst ` set d = {}"
    and "\<forall>(name, h) \<in> set rs. \<forall>f. h = Some f \<longrightarrow> (\<exists>x. f flag v = Inr x)"
  shows "build_dict flag (map (\<lambda>r. (r, v)) rs) d =
           Inr (PDict (d @ map (\<lambda>(name, h). (name, case h of None \<Rightarrow> v | Some f \<Rightarrow> projr (f flag v))) rs))"
  using assms
proof (induction rs arbitrary: d)
  case Nil
  show ?case by simp
next
  case (Cons r rs)
  obtain name h where r: "r = (name, h)" by (cases r)
  have fresh: "name \<notin> fst ` set d" using Cons.prems(2) r by auto
  define x where "x = (case h of None \<Rightarrow> v | Some f \<Rightarrow> projr (f flag v))"
  have step: "build_dict flag (map (\<lambda>r. (r, v)) (r # rs)) d =
              build_dict flag (map (\<lambda>r. (r, v)) rs) (d @ [(name, x)])"
  proof (cases h)
    case None
    then show ?thesis by (simp add: r x_def update_fresh[OF fresh])
  next
    case (Some f)
    then obtain y where "f flag v = Inr y" using Cons.prems(3) r by auto
    then show ?thesis using Some by (simp add: r x_def update_fresh[OF fresh])
  qed
  have d1: "distinct (map fst rs)" using Cons.prems(1) by simp
  have d2: "fst ` set rs \<inter> fst ` set (d @ [(name, x)]) = {}"
    using Cons.prems(1,2) r by auto
  have d3: "\<forall>(name, h) \<in> set rs. \<forall>f. h = Some f \<longrightarrow> (\<exists>x. f flag v = Inr x)"
    using Cons.prems(3) by simp
  show ?case
    unfolding step Cons.IH[OF d1 d2 d3] by (simp add: r x_def)
qed

text \<open>
  C9, as amended.  With \<^verbatim>\<open>success=False\<close> and a \<^verbatim>\<open>returns\<close> of length \<open>K \<ge> 1\<close> with
  distinct names whose handlers return when called with \<^verbatim>\<open>(False, None)\<close>, the result
  does not depend on the output or the signature (nothing is decoded): it is the
  mapping with exactly the \<open>K\<close> names, in the order of \<^verbatim>\<open>returns\<close>, where a name with a
  handler is bound to \<^verbatim>\<open>handler(False, None)\<close> and a name without one to \<^verbatim>\<open>None\<close>.
\<close>

theorem decode_output_failed_call:
  assumes "rs \<noteq> []"
    and "distinct (map fst rs)"
    and "\<forall>(name, h) \<in> set rs. \<forall>f. h = Some f \<longrightarrow> (\<exists>x. f (Some False) PNone = Inr x)"
  shows "decode_output output sig (Some rs) (Some False) =
           Inr (PDict (map (\<lambda>(name, h).
                  (name, case h of None \<Rightarrow> PNone | Some f \<Rightarrow> projr (f (Some False) PNone))) rs))"
proof -
  have z: "zip rs (replicate (length rs) PNone) = map (\<lambda>r. (r, PNone)) rs"
    by (induction rs) simp_all
  show ?thesis
    using assms(1) build_dict_distinct[OF assms(2) _ assms(3), of "[]"]
    by (simp add: decode_output_def Let_def z)
qed


theorem decode_output_failed_call_witness:
  "[(''a'', Some (\<lambda>s v. Inr (PBool (s = Some False \<and> v = PNone)))), (''b'', None)] \<noteq> [] \<and>
   distinct (map fst [(''a'', Some (\<lambda>s v. Inr (PBool (s = Some False \<and> v = PNone)))), (''b'', None :: handler option)]) \<and>
   decode_output ''ab'' \<lparr>encode_data = (\<lambda>_. Inr []), decode_data = (\<lambda>_. Inr [PInt 7, PInt 8])\<rparr>
     (Some [(''a'', Some (\<lambda>s v. Inr (PBool (s = Some False \<and> v = PNone)))), (''b'', None)])
     (Some False) = Inr (PDict [(''a'', PBool True), (''b'', PNone)])"
  using decode_output_failed_call
    [of "[(''a'', Some (\<lambda>s v. Inr (PBool (s = Some False \<and> v = PNone)))), (''b'', None)]"
        "''ab''" "\<lparr>encode_data = (\<lambda>_. Inr []), decode_data = (\<lambda>_. Inr [PInt 7, PInt 8])\<rparr>"]
  by simp

text \<open>
  C9, as stated, fails for \<open>K = 0\<close>: an empty \<^verbatim>\<open>returns\<close> is falsy, so the code takes the
  branch for an absent \<^verbatim>\<open>returns\<close> and yields \<^verbatim>\<open>None\<close>, not the mapping with no keys.
\<close>

theorem decode_output_empty_returns_counterexample:
  "decode_output [] \<lparr>encode_data = (\<lambda>_. Inr []), decode_data = (\<lambda>_. Inr [PInt 1])\<rparr>
     (Some []) (Some False) = Inr PNone \<and> PNone \<noteq> PDict []"
  by (simp add: decode_output_def Let_def)

section \<open>\<^verbatim>\<open>fetch_outputs\<close> and \<^verbatim>\<open>run\<close>\<close>

text \<open>
  An output that \<^verbatim>\<open>decode_data\<close> rejects never makes \<^verbatim>\<open>decode_output\<close> raise: the bare
  \<^verbatim>\<open>except\<close> replaces the decoded values by nulls.  Without \<^verbatim>\<open>returns\<close> the result is
  \<^verbatim>\<open>None\<close>.  What \<^verbatim>\<open>fetch_outputs\<close> still has to catch are the exceptions of handlers and
  the \<^verbatim>\<open>IndexError\<close> on an empty tuple.
\<close>

lemma decode_output_undecodable:
  "decode_data sig output = Inl e \<Longrightarrow> decode_output output sig None (Some True) = Inr PNone"
  by (simp add: decode_output_def Let_def)

lemma decode_output_empty_tuple:
  "decode_data sig output = Inr [] \<Longrightarrow>
   decode_output output sig None (Some True) = Inl (Exception ''tuple index out of range'')"
  by (simp add: decode_output_def Let_def)




lemma batch_calls_fresh_empty: "batch_calls ([] :: 'a list) 10000 = Some [[]]"
  by (simp add: batch_calls_def Let_def batch_loop.simps py_slice_def clamp_index_def)

text \<open>
  C5, as amended.  \<^verbatim>\<open>run\<close> on the empty list dispatches one aggregate request that
  carries no calls; when the node answers it, the result is the empty list and nothing
  else is dispatched.
\<close>

theorem run_empty:
  assumes "agg (rs, []) w = (Inr outputs, w')"
  shows "run agg rs [] w =
           Some (Inr [], \<lparr>batcher = batcher_init, world = w', dispatched = [(rs, [])]\<rparr>)"
  using assms
  by (simp add: run_def coroutine_def multicall_init_def batcher_init_def batch_calls_fresh_empty
      engine_eval try_fetch_Nil)


theorem run_empty_witness:
  "agg_ok (False, []) () = (Inr [], ()) \<and>
   run agg_ok False [] () =
     Some (Inr [], \<lparr>batcher = batcher_init, world = (), dispatched = [(False, [])]\<rparr>)"
proof -
  have a: "agg_ok (False, []) () = (Inr [], ())" by (simp add: agg_ok_def)
  show ?thesis using run_empty [where agg = agg_ok and w = "()", OF a] a by simp
qed

text \<open>
  C5, as stated, fails: on the empty list \<^verbatim>\<open>batch_calls\<close> returns one empty batch and
  \<^verbatim>\<open>fetch_outputs\<close> dispatches it, so one request is sent.
\<close>

theorem run_empty_counterexample:
  "map_option (\<lambda>p. dispatched (snd p)) (run agg_ok False [] ()) = Some [(False, [])] \<and>
   [(False, [])] \<noteq> ([] :: aggregate_args list)"
  by (simp add: run_def coroutine_def multicall_init_def batcher_init_def batch_calls_fresh_empty
      engine_eval try_fetch_Nil agg_ok_def)

lemma batch_calls_drops_last:
  assumes "0 < s" and "length calls = Suc s"
  shows "batch_calls calls (int s) = Some [take s calls]"
proof -
  have "(length calls - 1 + s - 1) div s = (s + (s - 1)) div s" using assms by simp
  also have "\<dots> = (s - 1) div s + 1" using div_add_self1[of s "s - 1"] assms(1) by simp
  also have "\<dots> = 1" using assms(1) by simp
  finally have "max 1 ((length calls - 1 + s - 1) div s) = 1" by simp
  then show ?thesis using batch_calls_chunks[OF assms(1), of calls] by simp
qed

lemma run_single_batch:
  assumes "batch_calls calls 10000 = Some [batch]"
    and "get_args rs batch = Inr request"
    and "agg request w = (Inr outputs, w')"
  shows "run agg rs calls w =
           Some (Inr (map decode_call (zip batch outputs)),
                 \<lparr>batcher = batcher_init, world = w', dispatched = [request]\<rparr>)"
  using assms
  by (simp add: run_def coroutine_def multicall_init_def batcher_init_def
      engine_eval try_fetch_def Let_def)

lemma encode_calls_replicate:
  "data c = Inr d \<Longrightarrow> encode_calls (replicate n c) = Inr (replicate n (target c, d))"
  by (induction n) simp_all

text \<open>
  C1 says that \<^verbatim>\<open>run\<close> returns one result per call, in the order of the calls.  The
  code at 10001 calls on a fresh \<^verbatim>\<open>Multicall\<close>, every dispatch succeeding: the step is
  10000, so in \<^verbatim>\<open>batch_calls\<close> the first \<^verbatim>\<open>end\<close> is 10000, which equals
  \<^verbatim>\<open>done = len(calls) - 1\<close>: the loop returns after the first chunk and the last call is
  in no batch.  One request with 10000 calls is dispatched and \<^verbatim>\<open>run\<close> returns 10000
  results for 10001 calls.
\<close>

theorem run_drops_last_call:
  "map_option (\<lambda>p. (map_sum id length (fst p), map (\<lambda>r. length (snd r)) (dispatched (snd p))))
     (run agg_ok False (replicate 10001 call_0) ()) = Some (Inr 10000, [10000]) \<and>
   length (replicate 10001 call_0) = 10001"
proof -
  have b: "batch_calls (replicate 10001 call_0) 10000 = Some [replicate 10000 call_0]"
    using batch_calls_drops_last[of 10000 "replicate 10001 call_0"] by (simp add: take_replicate)
  have d: "data call_0 = Inr []" by (simp add: data_def call_0_def)
  have g: "get_args False (replicate 10000 call_0) = Inr (False, replicate 10000 (target call_0, []))"
    by (simp add: get_args_def encode_calls_replicate[OF d])
  have a: "agg_ok (False, replicate 10000 (target call_0, [])) () = (Inr (replicate 10000 (True, [])), ())"
    by (simp add: agg_ok_def)
  have r: "run agg_ok False (replicate 10001 call_0) () =
             Some (Inr (map decode_call (zip (replicate 10000 call_0) (replicate 10000 (True, [])))),
                   \<lparr>batcher = batcher_init, world = (), dispatched = [(False, replicate 10000 (target call_0, []))]\<rparr>)"
    using b g a by (rule run_single_batch)
  show ?thesis
    unfolding r by simp
qed


text \<open>
  C10.  For a batch of one call and a step of at least 1, \<^verbatim>\<open>rebatch\<close> sets the step to 0
  and returns the empty batch followed by the batch itself; \<^verbatim>\<open>split_calls\<close> always
  returns chunks of sizes \<open>\<lfloor>n / 2\<rfloor>\<close> and \<open>n - \<lfloor>n / 2\<rfloor>\<close>.  After a dispatch of the one call
  that failed with a re-batch error, \<^verbatim>\<open>fetch_outputs\<close> first runs \<^verbatim>\<open>fetch_outputs([])\<close>
  and then \<^verbatim>\<open>fetch_outputs\<close> on the call again; and \<^verbatim>\<open>fetch_outputs([])\<close> sends the node
  the request with no calls.
\<close>

theorem rebatch_single_call:
  "(1 \<le> step b \<longrightarrow> rebatch [c] b = Some ([[], [c]], b\<lparr>step := 0\<rparr>)) \<and>
   length (fst (split_calls calls)) = length calls div 2 \<and>
   length (snd (split_calls calls)) = length calls - length calls div 2 \<and>
   (try_fetch agg rs [c'] m = (Inl e, m1) \<and> raise_or_proceed e 1 = Inr () \<and> 1 \<le> step (batcher m) \<longrightarrow>
      fetch_outputs agg rs [c'] m =
        Option.bind (fetch_outputs agg rs [] (m1\<lparr>batcher := (batcher m1)\<lparr>step := 0\<rparr>\<rparr>)) (\<lambda>(r, m2).
          case r of
            Inl e' \<Rightarrow> Some (Inl e', m2)
          | Inr batch_results \<Rightarrow>
              Option.bind (fetch_outputs agg rs [c'] m2) (\<lambda>(r', m3).
                case r' of
                  Inl e' \<Rightarrow> Some (Inl e', m3)
                | Inr items \<Rightarrow> Some (Inr (batch_results @ items), m3)))) \<and>
   try_fetch agg rs [] m' =
     (case agg (rs, []) (world m') of (outcome, w') \<Rightarrow>
        (map_sum id (\<lambda>_. []) outcome, m'\<lparr>world := w', dispatched := dispatched m' @ [(rs, [])]\<rparr>))"
proof (intro conjI impI)
  show "rebatch [c] b = Some ([[], [c]], b\<lparr>step := 0\<rparr>)" if "1 \<le> step b"
    using that by (simp add: rebatch_def split_calls_eq)
  show "length (fst (split_calls calls)) = length calls div 2"
    by (simp add: split_calls_eq)
  show "length (snd (split_calls calls)) = length calls - length calls div 2"
    by (simp add: split_calls_eq)
  show "try_fetch agg rs [] m' =
     (case agg (rs, []) (world m') of (outcome, w') \<Rightarrow>
        (map_sum id (\<lambda>_. []) outcome, m'\<lparr>world := w', dispatched := dispatched m' @ [(rs, [])]\<rparr>))"
    by (rule try_fetch_Nil)
  assume a: "try_fetch agg rs [c'] m = (Inl e, m1) \<and> raise_or_proceed e 1 = Inr () \<and> 1 \<le> step (batcher m)"
  then have "batcher m1 = batcher m" using try_fetch_batcher by blast
  then have rb: "rebatch [c'] (batcher m1) = Some ([[], [c']], (batcher m1)\<lparr>step := 0\<rparr>)"
    using a by (simp add: rebatch_def split_calls_eq)
  have "fetch_outputs agg rs [c'] m =
          engine agg rs (Gather [[], [c']]) (m1\<lparr>batcher := (batcher m1)\<lparr>step := 0\<rparr>\<rparr>)"
    using a rb by (simp add: fetch_outputs_def engine_Fetch)
  also have "\<dots> = Option.bind (engine agg rs (Fetch []) (m1\<lparr>batcher := (batcher m1)\<lparr>step := 0\<rparr>\<rparr>)) (\<lambda>(r, m2).
          case r of
            Inl e' \<Rightarrow> Some (Inl e', m2)
          | Inr batch_results \<Rightarrow>
              Option.bind (engine agg rs (Fetch [c']) m2) (\<lambda>(r', m3).
                case r' of
                  Inl e' \<Rightarrow> Some (Inl e', m3)
                | Inr items \<Rightarrow> Some (Inr (batch_results @ items), m3)))"
    unfolding engine_Gather_Cons[of _ _ "[]"] engine_Gather_single ..
  finally show "fetch_outputs agg rs [c'] m =
        Option.bind (fetch_outputs agg rs [] (m1\<lparr>batcher := (batcher m1)\<lparr>step := 0\<rparr>\<rparr>)) (\<lambda>(r, m2).
          case r of
            Inl e' \<Rightarrow> Some (Inl e', m2)
          | Inr batch_results \<Rightarrow>
              Option.bind (fetch_outputs agg rs [c'] m2) (\<lambda>(r', m3).
                case r' of
                  Inl e' \<Rightarrow> Some (Inl e', m3)
                | Inr items \<Rightarrow> Some (Inr (batch_results @ items), m3)))"
    unfolding fetch_outputs_def .
qed


theorem rebatch_single_call_witness:
  "(1::int) \<le> step batcher_init \<and>
   rebatch [call_0] batcher_init = Some ([[], [call_0]], batcher_init\<lparr>step := 0\<rparr>) \<and>
   try_fetch agg_script False [call_0]
     \<lparr>batcher = batcher_init,
        world = [Inl (Exception ''Gateway Timeout''), Inr [], Inr [(True, [])]],
        dispatched = []\<rparr> =
     (Inl (Exception ''Gateway Timeout''),
      \<lparr>batcher = batcher_init, world = [Inr [], Inr [(True, [])]],
         dispatched = [(False, [(''0x00'', [])])]\<rparr>) \<and>
   raise_or_proceed (Exception ''Gateway Timeout'') 1 = Inr () \<and>
   fetch_outputs agg_script False [call_0]
     \<lparr>batcher = batcher_init,
        world = [Inl (Exception ''Gateway Timeout''), Inr [], Inr [(True, [])]],
        dispatched = []\<rparr> =
     Some (Inr [PInt 1],
           \<lparr>batcher = \<lparr>step = 0\<rparr>, world = [],
              dispatched = [(False, [(''0x00'', [])]), (False, []), (False, [(''0x00'', [])])]\<rparr>)"
proof -
  have l: "lower ''Gateway Timeout'' = ''gateway timeout''" by code_simp
  have p: "raise_or_proceed (Exception ''Gateway Timeout'') n = Inr ()" for n
    by (simp add: raise_or_proceed_def l rebatch_triggers_def)
  have t: "try_fetch agg_script False [call_0]
     \<lparr>batcher = batcher_init,
        world = [Inl (Exception ''Gateway Timeout''), Inr [], Inr [(True, [])]],
        dispatched = []\<rparr> =
     (Inl (Exception ''Gateway Timeout''),
      \<lparr>batcher = batcher_init, world = [Inr [], Inr [(True, [])]],
         dispatched = [(False, [(''0x00'', [])])]\<rparr>)"
    by (simp add: try_fetch_def get_args_def data_def call_0_def agg_script_def)
  have s: "(1::int) \<le> step batcher_init" by (simp add: batcher_init_def)
  have r: "rebatch [call_0] batcher_init = Some ([[], [call_0]], batcher_init\<lparr>step := 0\<rparr>)"
    by (simp add: rebatch_def split_calls_def batcher_init_def)
  have f: "fetch_outputs agg_script False [call_0]
     \<lparr>batcher = batcher_init,
        world = [Inl (Exception ''Gateway Timeout''), Inr [], Inr [(True, [])]],
        dispatched = []\<rparr> =
     Some (Inr [PInt 1],
           \<lparr>batcher = \<lparr>step = 0\<rparr>, world = [],
              dispatched = [(False, [(''0x00'', [])]), (False, []), (False, [(''0x00'', [])])]\<rparr>)"
    by (simp add: fetch_outputs_def engine_eval try_fetch_def get_args_def data_def call_0_def
        agg_script_def p rebatch_def split_calls_def batcher_init_def decode_call_def
        decode_output_def Let_def)
  show ?thesis
    using rebatch_single_call [of batcher_init call_0 "[]" agg_script False call_0
        "\<lparr>batcher = batcher_init,
        world = [Inl (Exception ''Gateway Timeout''), Inr [], Inr [(True, [])]],
        dispatched = []\<rparr>"
        "Exception ''Gateway Timeout''"
        "\<lparr>batcher = batcher_init, world = [Inr [], Inr [(True, [])]],
         dispatched = [(False, [(''0x00'', [])])]\<rparr>"] s t p r f
    by simp
qed

text \<open>
  C7.  The step starts at 10000.  \<^verbatim>\<open>rebatch\<close> is the only operation that writes it, and
  it never returns a larger step than it was given; so the step after a
  \<^verbatim>\<open>fetch_outputs\<close> or a whole \<^verbatim>\<open>coroutine\<close> that returns (with a result or an
  exception) is at most the step before.
\<close>

theorem step_never_increases:
  "step batcher_init = 10000 \<and>
   (rebatch calls b = Some (batches, b') \<longrightarrow> step b' \<le> step b) \<and>
   (fetch_outputs agg rs cs m = Some (r, m') \<longrightarrow> step (batcher m') \<le> step (batcher m)) \<and>
   (coroutine agg rs cs m = Some (r, m') \<longrightarrow> step (batcher m') \<le> step (batcher m))"
proof (intro conjI impI)
  show "step batcher_init = 10000" by (simp add: batcher_init_def)
  show "step b' \<le> step b" if "rebatch calls b = Some (batches, b')"
    using that by (rule rebatch_step_le)
  show "step (batcher m') \<le> step (batcher m)" if "fetch_outputs agg rs cs m = Some (r, m')"
    using engine_step_le[of agg rs "Fetch cs" m "(r, m')"] that by (simp add: fetch_outputs_def)
  show "step (batcher m') \<le> step (batcher m)" if "coroutine agg rs cs m = Some (r, m')"
  proof -
    from that obtain bs where "engine agg rs (Gather bs) m = Some (r, m')"
      by (auto simp: coroutine_def split: option.splits)
    then show ?thesis using engine_step_le[of agg rs "Gather bs" m "(r, m')"] by simp
  qed
qed


theorem step_never_increases_witness:
  "rebatch [11, 12, 13 :: nat] batcher_init = Some ([[11], [12, 13]], \<lparr>step = 2\<rparr>) \<and>
   step \<lparr>step = 2\<rparr> \<le> step batcher_init \<and>
   fetch_outputs agg_script False [call_0, call_0, call_0]
     \<lparr>batcher = batcher_init,
        world = [Inl (Exception ''Gateway Timeout''), Inr [(True, [])], Inr [(True, []), (True, [])]],
        dispatched = []\<rparr> =
     Some (Inr [PInt 1, PInt 1, PInt 1],
           \<lparr>batcher = \<lparr>step = 2\<rparr>, world = [],
              dispatched = [(False, [(''0x00'', []), (''0x00'', []), (''0x00'', [])]),
                            (False, [(''0x00'', [])]),
                            (False, [(''0x00'', []), (''0x00'', [])])]\<rparr>) \<and>
   coroutine agg_script False [call_0, call_0, call_0]
     \<lparr>batcher = batcher_init,
        world = [Inl (Exception ''Gateway Timeout''), Inr [(True, [])], Inr [(True, []), (True, [])]],
        dispatched = []\<rparr> =
     Some (Inr [PInt 1, PInt 1, PInt 1],
           \<lparr>batcher = \<lparr>step = 2\<rparr>, world = [],
              dispatched = [(False, [(''0x00'', []), (''0x00'', []), (''0x00'', [])]),
                            (False, [(''0x00'', [])]),
                            (False, [(''0x00'', []), (''0x00'', [])])]\<rparr>) \<and>
   step (batcher \<lparr>batcher = \<lparr>step = 2\<rparr>, world = [],
              dispatched = [(False, [(''0x00'', []), (''0x00'', []), (''0x00'', [])]),
                            (False, [(''0x00'', [])]),
                            (False, [(''0x00'', []), (''0x00'', [])])]\<rparr>) \<le>
   step (batcher \<lparr>batcher = batcher_init,
        world = [Inl (Exception ''Gateway Timeout''), Inr [(True, [])], Inr [(True, []), (True, [])]],
        dispatched = []\<rparr>)"
proof -
  have l: "lower ''Gateway Timeout'' = ''gateway timeout''" by code_simp
  have p: "raise_or_proceed (Exception ''Gateway Timeout'') n = Inr ()" for n
    by (simp add: raise_or_proceed_def l rebatch_triggers_def)
  have r: "rebatch [11, 12, 13 :: nat] batcher_init = Some ([[11], [12, 13]], \<lparr>step = 2\<rparr>)"
    by (simp add: rebatch_def split_calls_def batcher_init_def)
  have f: "fetch_outputs agg_script False [call_0, call_0, call_0]
     \<lparr>batcher = batcher_init,
        world = [Inl (Exception ''Gateway Timeout''), Inr [(True, [])], Inr [(True, []), (True, [])]],
        dispatched = []\<rparr> =
     Some (Inr [PInt 1, PInt 1, PInt 1],
           \<lparr>batcher = \<lparr>step = 2\<rparr>, world = [],
              dispatched = [(False, [(''0x00'', []), (''0x00'', []), (''0x00'', [])]),
                            (False, [(''0x00'', [])]),
                            (False, [(''0x00'', []), (''0x00'', [])])]\<rparr>)"
    by (simp add: fetch_outputs_def engine_eval try_fetch_def get_args_def data_def call_0_def
        agg_script_def p rebatch_def split_calls_def batcher_init_def decode_call_def
        decode_output_def Let_def)
  have b: "batch_calls [call_0, call_0, call_0] (step batcher_init) = Some [[call_0, call_0, call_0]]"
    by (simp add: batch_calls_def Let_def batch_loop.simps py_slice_def clamp_index_def batcher_init_def)
  have c: "coroutine agg_script False [call_0, call_0, call_0]
     \<lparr>batcher = batcher_init,
        world = [Inl (Exception ''Gateway Timeout''), Inr [(True, [])], Inr [(True, []), (True, [])]],
        dispatched = []\<rparr> =
     Some (Inr [PInt 1, PInt 1, PInt 1],
           \<lparr>batcher = \<lparr>step = 2\<rparr>, world = [],
              dispatched = [(False, [(''0x00'', []), (''0x00'', []), (''0x00'', [])]),
                            (False, [(''0x00'', [])]),
                            (False, [(''0x00'', []), (''0x00'', [])])]\<rparr>)"
    using f by (simp add: coroutine_def b engine_Gather_single fetch_outputs_def)
  show ?thesis
    using step_never_increases [of "[11, 12, 13 :: nat]" batcher_init "[[11], [12, 13]]" "\<lparr>step = 2\<rparr>"
        agg_script False "[call_0, call_0, call_0]"
        "\<lparr>batcher = batcher_init,
        world = [Inl (Exception ''Gateway Timeout''), Inr [(True, [])], Inr [(True, []), (True, [])]],
        dispatched = []\<rparr>"
        "Inr [PInt 1, PInt 1, PInt 1]"
        "\<lparr>batcher = \<lparr>step = 2\<rparr>, world = [],
              dispatched = [(False, [(''0x00'', []), (''0x00'', []), (''0x00'', [])]),
                            (False, [(''0x00'', [])]),
                            (False, [(''0x00'', []), (''0x00'', [])])]\<rparr>"] r f c
    by simp
qed

end
